theory Spec2Isabelle
  imports Main "HOL-Library.AList" "HOL-Library.Multiset"
begin

section \<open>Data model (src/types)\<close>

text \<open>
  A \<open>QueryMap\<close> is a JavaScript object from identifiers to query texts. It is kept as
  the list of its own entries in the order \<open>Object.entries\<close> enumerates them, the keys
  pairwise distinct; a property read \<open>queries[k]\<close> is \<open>map_of queries k\<close> and a
  property write is \<open>AList.update\<close>, which overwrites in place or appends a new key at
  the end.

  Identifiers, of queries and of metrics alike, are assumed to be ordinary names:
  neither names of \<open>Object.prototype\<close> members nor canonical array indices (which
  JavaScript enumerates first). So a read of the QueryMap, of the accumulator of the
  relevant queries or of \<open>calculatedValues\<close> under an identifier finds an own
  property or nothing, and a write under an identifier creates or overwrites an own
  property. No such assumption is made on panel titles and on the names of variables:
  the panel cache and the Variables object are kept as plain objects, with what they
  inherit.
\<close>

type_synonym QueryMap = "(string \<times> string) list"

text \<open>The field \<open>id\<close> of a metric is \<open>metric_id\<close> here.\<close>

record MetricsToCompute =
  metric_id :: string
  expression :: string
  dependencies :: "string list"

record Panel =
  title :: string
  metrics :: "MetricsToCompute list"

record DashboardConfig =
  queries :: QueryMap
  variables :: "string list option"
  panels :: "Panel list"

text \<open>A \<open>MetricResult\<close> is the object \<open>{id, value}\<close>.\<close>

type_synonym 'v MetricResult = "string \<times> 'v"

record 'v DashboardResult =
  panel :: string
  results :: "'v MetricResult list"

section \<open>Plain objects\<close>

text \<open>
  An object created by \<open>{}\<close> or by an object literal inherits the members of
  \<open>Object.prototype\<close>. A property read \<open>obj[key]\<close> and the operator
  \<open>key in obj\<close> find an inherited member when the object has no own property of
  that name; \<open>hasOwnProperty\<close> and \<open>Object.entries\<close> see own properties only.
  These are the names of the members of \<open>Object.prototype\<close>. All of them hold
  functions, except the accessor \<open>__proto__\<close>: reading it gives the prototype of
  the object it is read from, writing an object to it replaces that prototype and
  creates no own property.
\<close>

definition object_prototype_members :: "string list" where
  "object_prototype_members =
     [''constructor'', ''__defineGetter__'', ''__defineSetter__'', ''hasOwnProperty'',
      ''__lookupGetter__'', ''__lookupSetter__'', ''isPrototypeOf'', ''propertyIsEnumerable'',
      ''toString'', ''valueOf'', ''__proto__'', ''toLocaleString'']"

section \<open>The engine (src/core/quick-dash-engine.ts)\<close>

text \<open>
  The engine holds the injected query executor and the concurrency ceiling. A call of
  \<open>executeQuery\<close> either throws before it returns, \<open>Throws e\<close> with \<open>e\<close>
  the thrown value as text, or returns a promise that settles: \<open>Returns (Inr v)\<close>
  when it fulfils with \<open>v\<close>, \<open>Returns (Inl reason)\<close> when it rejects. The
  executor is deterministic: what a call does is a function of the query text. A promise
  that never settles is outside the model. The ceiling is the integer handed to
  \<open>splice(0, n)\<close>, which removes \<open>n\<close> elements, none when \<open>n\<close> is not
  positive. Values are opaque to the engine, hence the type parameter.
\<close>

datatype 'v query_call = Throws string | Returns "string + 'v"

record 'v QuickDashEngine =
  executeQuery :: "string \<Rightarrow> 'v query_call"
  maxConcurrentQueries :: int

text \<open>
  What a run can throw: an error of the expression evaluator, a TypeError of the
  engine's own code, or the value thrown by a call of \<open>executeQuery\<close>.
\<close>

datatype error = EvaluationError string | TypeError string | Thrown string

text \<open>
  What one call of \<open>processPanelResults\<close> owns and mutates: the object
  \<open>calculatedValues\<close>, together with three logs of what the run did to the outside:
  the query texts passed to \<open>executeQuery\<close>, the identifiers written by
  \<open>calculatedValues[id] = ...\<close>, and the lines sent to \<open>console.error\<close>, each in
  the order of occurrence.
\<close>

record 'v exec_state =
  calculatedValues :: "string \<rightharpoonup> 'v"
  executed :: "string list"
  assigned :: "string list"
  console :: "string list"

definition initial_state :: "'v exec_state" where
  "initial_state =
     \<lparr>calculatedValues = Map.empty, executed = [], assigned = [], console = []\<rparr>"

text \<open>
  A generator that can throw either returns, having yielded a list of values, or throws;
  both leave a state behind. A loop that never ends has no outcome: the functions below
  return \<open>None\<close> for it.
\<close>

datatype ('a, 'v) outcome = Returned 'a "'v exec_state" | Threw error "'v exec_state"

subsection \<open>processQueries\<close>

text \<open>
  \<open>batch.map(([id, query]) => this.executeQuery(query).then(...))\<close>: the queries of
  the batch are passed to \<open>executeQuery\<close> one after the other, in the order of the
  batch. A call that throws ends \<open>map\<close>, and the exception leaves the generator:
  the queries after it are never started and \<open>Promise.allSettled\<close> is not
  reached. \<open>Inl\<close> is the thrown value with the queries started up to there,
  \<open>Inr\<close> the array of promises, each given by its identifier and the settlement
  it reaches.
\<close>

fun batch_map ::
  "'v QuickDashEngine \<Rightarrow> QueryMap \<Rightarrow> (string \<times> string list) + (string \<times> (string + 'v)) list"
  where
  "batch_map eng [] = Inr []"
| "batch_map eng ((i, query) # batch) =
     (case executeQuery eng query of
        Throws e \<Rightarrow> Inl (e, [query])
      | Returns settlement \<Rightarrow>
          (case batch_map eng batch of
             Inl (e, started) \<Rightarrow> Inl (e, query # started)
           | Inr promises \<Rightarrow> Inr ((i, settlement) # promises)))"

text \<open>
  \<open>await Promise.allSettled(promises)\<close> gives the settlements in the order of the
  array the promises were given in; the \<open>for\<close> loop over them yields the fulfilled
  ones and reports the rejected ones.
\<close>

definition fulfilled :: "(string \<times> (string + 'v)) list \<Rightarrow> 'v MetricResult list" where
  "fulfilled batchResults =
     List.map_filter (\<lambda>(i, r). case r of Inr v \<Rightarrow> Some (i, v) | Inl _ \<Rightarrow> None) batchResults"

definition rejected :: "(string \<times> (string + 'v)) list \<Rightarrow> string list" where
  "rejected batchResults =
     List.map_filter (\<lambda>(i, r). case r of Inr _ \<Rightarrow> None
        | Inl reason \<Rightarrow> Some (''Erro ao executar query: '' @ reason)) batchResults"

text \<open>
  The generator \<open>processQueries\<close>, as the outcome of draining it: the values it
  yielded, the exception that ended it if one did, and the state it left. \<open>out\<close>
  collects what the \<open>while\<close> loop has yielded so far. A loop that never ends has no
  outcome.
\<close>

type_synonym 'v query_run = "'v MetricResult list \<times> error option \<times> 'v exec_state"

partial_function (option) processQueries_loop ::
  "'v QuickDashEngine \<Rightarrow> QueryMap \<Rightarrow> 'v exec_state \<Rightarrow> 'v MetricResult list
     \<Rightarrow> 'v query_run option" where
  "processQueries_loop eng queryEntries st out =
     (if length queryEntries > 0 then
        let batch = take (nat (maxConcurrentQueries eng)) queryEntries;
            remaining = drop (nat (maxConcurrentQueries eng)) queryEntries
        in (case batch_map eng batch of
              Inl (e, started) \<Rightarrow>
                Some (out, Some (Thrown e), st\<lparr>executed := executed st @ started\<rparr>)
            | Inr batchResults \<Rightarrow>
                processQueries_loop eng remaining
                  (st\<lparr>executed := executed st @ map snd batch,
                      console := console st @ rejected batchResults\<rparr>)
                  (out @ fulfilled batchResults))
      else Some (out, None, st))"

definition processQueries ::
  "'v QuickDashEngine \<Rightarrow> QueryMap \<Rightarrow> 'v exec_state \<Rightarrow> 'v query_run option" where
  "processQueries eng queryMap st = processQueries_loop eng queryMap st []"

subsection \<open>processCalculations\<close>

text \<open>
  The expression evaluator is the imported \<open>mathjs\<close> function \<open>evaluate\<close>, taken
  here as a parameter: a function of the expression and the bindings that returns a
  number or throws. It does not write to the bindings (an expression that assigns to a
  symbol is outside the model).
\<close>

type_synonym 'v evaluator = "string \<Rightarrow> (string \<rightharpoonup> 'v) \<Rightarrow> error + 'v"

definition eligible :: "(string \<rightharpoonup> 'v) \<Rightarrow> MetricsToCompute \<Rightarrow> bool" where
  "eligible values m = list_all (\<lambda>dep. dep \<in> dom values) (dependencies m)"

definition assign :: "string \<Rightarrow> 'v \<Rightarrow> 'v exec_state \<Rightarrow> 'v exec_state" where
  "assign i v st =
     st\<lparr>calculatedValues := (calculatedValues st)(i \<mapsto> v), assigned := assigned st @ [i]\<rparr>"

text \<open>
  The inner \<open>for\<close> loop, \<open>sweep k\<close> being the iterations with \<open>i = k - 1\<close> down
  to \<open>0\<close>; the \<open>while\<close> loop starts it with \<open>k\<close> the length of the pending
  list. An eligible metric is evaluated, bound, yielded and removed by
  \<open>splice(i, 1)\<close>. The result is the thrown error, or the pending list, the state and
  the values yielded so far. Destructuring \<open>pendingMetrics[i]\<close> beyond the end of
  the list would throw a TypeError.
\<close>

fun sweep ::
  "'v evaluator \<Rightarrow> nat \<Rightarrow> MetricsToCompute list \<Rightarrow> 'v exec_state \<Rightarrow> 'v MetricResult list
     \<Rightarrow> (error \<times> 'v exec_state) + (MetricsToCompute list \<times> 'v exec_state \<times> 'v MetricResult list)"
  where
  "sweep ev 0 pendingMetrics st out = Inr (pendingMetrics, st, out)"
| "sweep ev (Suc i) pendingMetrics st out =
     (if i < length pendingMetrics then
        let m = pendingMetrics ! i in
        if eligible (calculatedValues st) m then
          (case ev (expression m) (calculatedValues st) of
             Inl e \<Rightarrow> Inl (e, st)
           | Inr v \<Rightarrow>
               sweep ev i (take i pendingMetrics @ drop (Suc i) pendingMetrics)
                 (assign (metric_id m) v st) (out @ [(metric_id m, v)]))
        else sweep ev i pendingMetrics st out
      else Inl (TypeError ''Cannot destructure property of undefined'', st))"

partial_function (option) processCalculations_loop ::
  "'v evaluator \<Rightarrow> MetricsToCompute list \<Rightarrow> 'v exec_state \<Rightarrow> 'v MetricResult list
     \<Rightarrow> ('v MetricResult list, 'v) outcome option" where
  "processCalculations_loop ev pendingMetrics st out =
     (if length pendingMetrics > 0 then
        (case sweep ev (length pendingMetrics) pendingMetrics st out of
           Inl (e, st') \<Rightarrow> Some (Threw e st')
         | Inr (pendingMetrics', st', out') \<Rightarrow>
             processCalculations_loop ev pendingMetrics' st' out')
      else Some (Returned out st))"

text \<open>
  \<open>processCalculations\<close> first drains the query stream into \<open>calculatedValues\<close>
  (the \<open>for await\<close> loop, which yields nothing), then runs the resolution loop. The
  query stream is given by the values it yields and the exception that ends it, if one
  does: the values are bound as they arrive, and the exception leaves
  \<open>processCalculations\<close> before the resolution loop starts.
\<close>

fun drain_queryStream :: "'v MetricResult list \<Rightarrow> 'v exec_state \<Rightarrow> 'v exec_state" where
  "drain_queryStream [] st = st"
| "drain_queryStream ((i, v) # queryStream) st = drain_queryStream queryStream (assign i v st)"

definition processCalculations ::
  "'v evaluator \<Rightarrow> MetricsToCompute list \<Rightarrow> 'v MetricResult list \<times> error option
     \<Rightarrow> 'v exec_state \<Rightarrow> ('v MetricResult list, 'v) outcome option" where
  "processCalculations ev metricsToCompute queryStream st =
     (case queryStream of
        (yielded, Some e) \<Rightarrow> Some (Threw e (drain_queryStream yielded st))
      | (yielded, None) \<Rightarrow>
          processCalculations_loop ev metricsToCompute (drain_queryStream yielded st) [])"

subsection \<open>processPanelResults\<close>

definition truthy :: "string option \<Rightarrow> bool" where
  "truthy x = (case x of None \<Rightarrow> False | Some s \<Rightarrow> s \<noteq> [])"

definition add_dependency :: "QueryMap \<Rightarrow> QueryMap \<Rightarrow> string \<Rightarrow> QueryMap" where
  "add_dependency queryMap acc dependency =
     (if truthy (map_of queryMap dependency) \<and> \<not> truthy (map_of acc dependency)
      then AList.update dependency (the (map_of queryMap dependency)) acc
      else acc)"

definition relevantQueries :: "Panel \<Rightarrow> QueryMap \<Rightarrow> QueryMap" where
  "relevantQueries p queryMap =
     foldl (\<lambda>acc metric. foldl (add_dependency queryMap) acc (dependencies metric)) []
       (metrics p)"

text \<open>
  The panel cache is the plain object \<open>{}\<close>. It is kept as its own entries and its
  prototype: \<open>None\<close> while that is \<open>Object.prototype\<close>, \<open>Some r\<close> once the
  panel result \<open>r\<close>, itself a plain object, has been written to \<open>__proto__\<close>.
\<close>

record 'v PanelCache =
  entries :: "string \<rightharpoonup> 'v DashboardResult"
  prototype :: "'v DashboardResult option"

definition empty_cache :: "'v PanelCache" where
  "empty_cache = \<lparr>entries = Map.empty, prototype = None\<rparr>"

text \<open>
  What a read of the cache can give, and so what the generator can yield: a panel
  result; a member of \<open>Object.prototype\<close>, given by its name (under
  \<open>__proto__\<close>, the prototype itself); or, through a replaced prototype, the title
  or the results array of a panel result.
\<close>

datatype 'v js_value =
    PanelResult "'v DashboardResult"
  | Inherited string
  | StringValue string
  | ArrayValue "'v MetricResult list"

definition inherited :: "string \<Rightarrow> 'v js_value option" where
  "inherited key = (if key \<in> set object_prototype_members then Some (Inherited key) else None)"

text \<open>
  The read \<open>panelCache[key]\<close>, \<open>None\<close> for \<open>undefined\<close>: an own entry, or else
  what the prototype chain holds under that name.
\<close>

definition cache_get :: "'v PanelCache \<Rightarrow> string \<Rightarrow> 'v js_value option" where
  "cache_get panelCache key =
     (case entries panelCache key of
        Some r \<Rightarrow> Some (PanelResult r)
      | None \<Rightarrow>
          (case prototype panelCache of
             None \<Rightarrow> inherited key
           | Some r \<Rightarrow>
               if key = ''__proto__'' then Some (PanelResult r)
               else if key = ''panel'' then Some (StringValue (panel r))
               else if key = ''results'' then Some (ArrayValue (results r))
               else inherited key))"

text \<open>
  The write \<open>panelCache[key] = panelResult\<close>: an own entry, except under
  \<open>__proto__\<close>, where the prototype is replaced.
\<close>

definition cache_put :: "string \<Rightarrow> 'v DashboardResult \<Rightarrow> 'v PanelCache \<Rightarrow> 'v PanelCache" where
  "cache_put key panelResult panelCache =
     (if key = ''__proto__'' then panelCache\<lparr>prototype := Some panelResult\<rparr>
      else panelCache\<lparr>entries := (entries panelCache)(key \<mapsto> panelResult)\<rparr>)"

text \<open>Objects, arrays and functions are truthy, a string unless it is empty.\<close>

definition truthy_value :: "'v js_value option \<Rightarrow> bool" where
  "truthy_value x =
     (case x of None \<Rightarrow> False | Some (StringValue s) \<Rightarrow> s \<noteq> [] | Some _ \<Rightarrow> True)"

text \<open>
  The generator \<open>processPanelResults\<close>, as the outcome of draining it: the values
  yielded, the error that ended it if one did, the panel cache and the state it left.
\<close>

type_synonym 'v panel_run =
  "'v js_value list \<times> error option \<times> 'v PanelCache \<times> 'v exec_state"

fun processPanelResults_loop ::
  "'v QuickDashEngine \<Rightarrow> 'v evaluator \<Rightarrow> QueryMap \<Rightarrow> bool \<Rightarrow> Panel list
     \<Rightarrow> 'v PanelCache \<Rightarrow> 'v exec_state \<Rightarrow> 'v js_value list
     \<Rightarrow> 'v panel_run option" where
  "processPanelResults_loop eng ev queryMap useStream [] panelCache st out =
     Some (out, None, panelCache, st)"
| "processPanelResults_loop eng ev queryMap useStream (p # ps) panelCache st out =
     (if useStream \<and> truthy_value (cache_get panelCache (title p)) then
        processPanelResults_loop eng ev queryMap useStream ps panelCache st
          (out @ [the (cache_get panelCache (title p))])
      else
        (case processQueries eng (relevantQueries p queryMap) st of
           None \<Rightarrow> None
         | Some (yielded, thrown, st1) \<Rightarrow>
             (case processCalculations ev (metrics p) (yielded, thrown) st1 of
                None \<Rightarrow> None
              | Some (Threw e st2) \<Rightarrow> Some (out, Some e, panelCache, st2)
              | Some (Returned rs st2) \<Rightarrow>
                  let panelResult = \<lparr>panel = title p, results = rs\<rparr> in
                  processPanelResults_loop eng ev queryMap useStream ps
                    (cache_put (title p) panelResult panelCache) st2
                    (out @ [PanelResult panelResult]))))"

definition processPanelResults ::
  "'v QuickDashEngine \<Rightarrow> 'v evaluator \<Rightarrow> Panel list \<Rightarrow> QueryMap \<Rightarrow> bool
     \<Rightarrow> 'v panel_run option" where
  "processPanelResults eng ev panelList queryMap useStream =
     processPanelResults_loop eng ev queryMap useStream panelList empty_cache initial_state []"

subsection \<open>executeDashboard\<close>

text \<open>
  Draining an async sequence with \<open>for await\<close> into a list: the list when the
  sequence ends, the error when it throws, nothing when it never ends.
\<close>

definition drain :: "'v panel_run option \<Rightarrow> (error + 'v js_value list) option" where
  "drain g =
     (case g of
        None \<Rightarrow> None
      | Some (out, None, _, _) \<Rightarrow> Some (Inr out)
      | Some (out, Some e, _, _) \<Rightarrow> Some (Inl e))"

datatype 'v dashboard_return =
    AsyncGenerator "'v panel_run option"
  | PanelResults "(error + 'v js_value list) option"

definition executeDashboard ::
  "'v QuickDashEngine \<Rightarrow> 'v evaluator \<Rightarrow> DashboardConfig \<Rightarrow> bool \<Rightarrow> 'v dashboard_return"
  where
  "executeDashboard eng ev dashboard useStream =
     (if useStream then
        AsyncGenerator (processPanelResults eng ev (panels dashboard) (queries dashboard) useStream)
      else
        PanelResults
          (drain (processPanelResults eng ev (panels dashboard) (queries dashboard) useStream)))"

subsection \<open>A stand-in evaluator for closed examples\<close>

text \<open>
  \<open>mathjs\<close> is not part of the repository. Where an example needs a concrete
  evaluator, \<open>sum_evaluator\<close> evaluates the expressions \<open>s1 + s2 + ... + sn\<close> over
  symbols as \<open>mathjs\<close> does: each symbol is looked up in the bindings, an unbound
  symbol throws.
\<close>

fun split_on :: "char \<Rightarrow> string \<Rightarrow> string list" where
  "split_on c [] = [[]]"
| "split_on c (x # xs) =
     (if x = c then [] # split_on c xs
      else (case split_on c xs of [] \<Rightarrow> [[x]] | w # ws \<Rightarrow> (x # w) # ws))"

definition trim :: "string \<Rightarrow> string" where
  "trim s = rev (dropWhile (\<lambda>c. c = CHR '' '') (rev (dropWhile (\<lambda>c. c = CHR '' '') s)))"

definition sum_evaluator :: "int evaluator" where
  "sum_evaluator e bindings =
     (let symbols = map trim (split_on CHR ''+'' e) in
      if list_all (\<lambda>s. s \<in> dom bindings) symbols
      then Inr (sum_list (map (\<lambda>s. the (bindings s)) symbols))
      else Inl (EvaluationError ''Undefined symbol''))"

section \<open>The parser (src/core/quick-dash-parser.ts)\<close>















section \<open>Notions used in the statements\<close>

subsection \<open>Pending metrics that can be resolved\<close>





subsection \<open>What a run of the batcher reaches\<close>

text \<open>
  A query throws when the call of \<open>executeQuery\<close> on it throws, and fulfils when
  the call returns a promise that fulfils. The settlements of a list of entries are
  those of the entries whose query does not throw.
\<close>

definition throws :: "'v QuickDashEngine \<Rightarrow> string \<Rightarrow> bool" where
  "throws eng query = (case executeQuery eng query of Throws _ \<Rightarrow> True | Returns _ \<Rightarrow> False)"

definition fulfils :: "'v QuickDashEngine \<Rightarrow> string \<Rightarrow> bool" where
  "fulfils eng query =
     (case executeQuery eng query of Returns (Inr _) \<Rightarrow> True | _ \<Rightarrow> False)"

definition settlements ::
  "'v QuickDashEngine \<Rightarrow> QueryMap \<Rightarrow> (string \<times> (string + 'v)) list" where
  "settlements eng es =
     List.map_filter
       (\<lambda>(i, query). case executeQuery eng query of Returns s \<Rightarrow> Some (i, s) | Throws _ \<Rightarrow> None) es"

text \<open>
  The entries in front of the first one whose query throws; the value that one throws,
  if there is one; the entries started, which end with it; and the entries of the
  completed batches: all of them when no query throws, else those of the batches in
  front of the batch that holds the first query that throws.
\<close>

definition before_throw :: "'v QuickDashEngine \<Rightarrow> QueryMap \<Rightarrow> QueryMap" where
  "before_throw eng es = takeWhile (\<lambda>(i, query). \<not> throws eng query) es"

definition first_throw :: "'v QuickDashEngine \<Rightarrow> QueryMap \<Rightarrow> error option" where
  "first_throw eng es =
     (case dropWhile (\<lambda>(i, query). \<not> throws eng query) es of
        [] \<Rightarrow> None
      | (i, query) # _ \<Rightarrow>
          (case executeQuery eng query of Throws e \<Rightarrow> Some (Thrown e) | Returns _ \<Rightarrow> None))"

definition started :: "'v QuickDashEngine \<Rightarrow> QueryMap \<Rightarrow> QueryMap" where
  "started eng es = take (Suc (length (before_throw eng es))) es"

definition completed :: "'v QuickDashEngine \<Rightarrow> QueryMap \<Rightarrow> QueryMap" where
  "completed eng es =
     (if length (before_throw eng es) = length es then es
      else take (length (before_throw eng es) div nat (maxConcurrentQueries eng)
                 * nat (maxConcurrentQueries eng)) es)"

subsection \<open>Completion order\<close>

text \<open>
  Completion order, following the spec's words: given how long each query takes to
  settle, the entries of a batch in the order in which their executions complete
  (entries that take equally long in the order they were started). The engine takes no
  such duration; the definition serves to state what the batcher does not do.
\<close>

definition completion_order :: "(string \<Rightarrow> nat) \<Rightarrow> QueryMap \<Rightarrow> QueryMap" where
  "completion_order duration batch = sort_key (\<lambda>(i, query). duration query) batch"

subsection \<open>The tokens a template references\<close>





section \<open>Invariants used in the proofs\<close>







text \<open>
  In streaming mode a read of the cache gives, for every panel processed so far, the
  value that was yielded for it, and that value is truthy.
\<close>

definition cache_holds :: "'v PanelCache \<Rightarrow> 'v js_value list \<Rightarrow> Panel list \<Rightarrow> bool" where
  "cache_holds panelCache out processed \<longleftrightarrow>
     length out = length processed \<and>
     (\<forall>i<length processed.
        cache_get panelCache (title (processed ! i)) = Some (out ! i) \<and>
        truthy_value (Some (out ! i)))"

section \<open>Concrete inputs used by the examples\<close>

definition metric_sum :: MetricsToCompute where
  "metric_sum = \<lparr>metric_id = ''sum'', expression = ''a + b'', dependencies = [''a'', ''b'']\<rparr>"

definition metric_total :: MetricsToCompute where
  "metric_total = \<lparr>metric_id = ''total'', expression = ''sum + a'', dependencies = [''sum'', ''a'']\<rparr>"


definition failing_engine :: "int QuickDashEngine" where
  "failing_engine = \<lparr>executeQuery = (\<lambda>query. Returns (Inl ''connection lost'')), maxConcurrentQueries = 20\<rparr>"

definition metric_x :: MetricsToCompute where
  "metric_x = \<lparr>metric_id = ''x'', expression = ''y'', dependencies = [''y'']\<rparr>"

definition metric_y :: MetricsToCompute where
  "metric_y = \<lparr>metric_id = ''y'', expression = ''x'', dependencies = [''x'']\<rparr>"

definition dashboard_of :: "QueryMap \<Rightarrow> MetricsToCompute list \<Rightarrow> DashboardConfig" where
  "dashboard_of qm ms = \<lparr>queries = qm, variables = None, panels = [\<lparr>title = ''P'', metrics = ms\<rparr>]\<rparr>"





definition metric_double :: MetricsToCompute where
  "metric_double = \<lparr>metric_id = ''double'', expression = ''a + a'', dependencies = [''a'']\<rparr>"

definition two_queries_engine :: "int QuickDashEngine" where
  "two_queries_engine =
     \<lparr>executeQuery = (\<lambda>query. if query = ''SELECT a'' then Returns (Inr 1)
                               else if query = ''SELECT b'' then Returns (Inr 2)
                               else Returns (Inl ''no such table'')),
      maxConcurrentQueries = 20\<rparr>"

definition queries_ab :: QueryMap where
  "queries_ab = [(''a'', ''SELECT a''), (''b'', ''SELECT b'')]"

definition slow_a :: "string \<Rightarrow> nat" where
  "slow_a query = (if query = ''SELECT a'' then 2 else 1)"




definition metric_single :: MetricsToCompute where
  "metric_single = \<lparr>metric_id = ''single'', expression = ''a'', dependencies = [''a'']\<rparr>"

definition panel_first :: Panel where
  "panel_first = \<lparr>title = ''First'', metrics = [metric_single]\<rparr>"

definition panel_second :: Panel where
  "panel_second = \<lparr>title = ''Second'', metrics = [metric_double]\<rparr>"

definition result_first :: "int js_value" where
  "result_first = PanelResult \<lparr>panel = ''First'', results = [(''single'', 1)]\<rparr>"

definition panel_totals :: Panel where
  "panel_totals = \<lparr>title = ''Totals'', metrics = [metric_sum, metric_total]\<rparr>"

definition dashboard_repeated :: DashboardConfig where
  "dashboard_repeated =
     \<lparr>queries = queries_ab, variables = None, panels = [panel_totals, panel_totals]\<rparr>"

definition dashboard_two_panels :: DashboardConfig where
  "dashboard_two_panels =
     \<lparr>queries = queries_ab, variables = None, panels = [panel_first, panel_second]\<rparr>"

definition dashboard_sum :: "string \<Rightarrow> string \<Rightarrow> DashboardConfig" where
  "dashboard_sum qa qb =
     \<lparr>queries = [(''a'', qa), (''b'', qb)], variables = None,
      panels = [\<lparr>title = ''P'', metrics =
        [\<lparr>metric_id = ''sum'', expression = ''a + b'', dependencies = [''a'', ''b'']\<rparr>]\<rparr>]\<rparr>"






definition dashboard_inherited :: DashboardConfig where
  "dashboard_inherited =
     \<lparr>queries = queries_ab, variables = None,
      panels = [\<lparr>title = ''constructor'', metrics = [metric_single]\<rparr>]\<rparr>"




section \<open>Properties\<close>

subsection \<open>The batching loop\<close>

lemma settlements_append: "settlements eng (xs @ ys) = settlements eng xs @ settlements eng ys"
  by (simp add: settlements_def List.map_filter_def)

lemma settlements_Nil: "settlements eng [] = []"
  by (simp add: settlements_def List.map_filter_def)

lemma settlements_Cons:
  "settlements eng ((i, query) # es) =
     (case executeQuery eng query of
        Returns s \<Rightarrow> (i, s) # settlements eng es
      | Throws e \<Rightarrow> settlements eng es)"
  by (simp add: settlements_def List.map_filter_def split: query_call.splits)

lemma fulfilled_Nil: "fulfilled [] = []"
  by (simp add: fulfilled_def List.map_filter_def)

lemma fulfilled_Cons:
  "fulfilled ((i, r) # xs) =
     (case r of Inr v \<Rightarrow> (i, v) # fulfilled xs | Inl reason \<Rightarrow> fulfilled xs)"
  by (simp add: fulfilled_def List.map_filter_def split: sum.splits)

lemma rejected_Nil: "rejected [] = []"
  by (simp add: rejected_def List.map_filter_def)

lemma rejected_Cons:
  "rejected ((i, r) # xs) =
     (case r of
        Inr v \<Rightarrow> rejected xs
      | Inl reason \<Rightarrow> (''Erro ao executar query: '' @ reason) # rejected xs)"
  by (simp add: rejected_def List.map_filter_def split: sum.splits)

lemma fulfilled_append: "fulfilled (xs @ ys) = fulfilled xs @ fulfilled ys"
  by (simp add: fulfilled_def List.map_filter_def)

lemma rejected_append: "rejected (xs @ ys) = rejected xs @ rejected ys"
  by (simp add: rejected_def List.map_filter_def)

lemma before_throw_all: "before_throw eng es = es \<longleftrightarrow> (\<forall>(i, query)\<in>set es. \<not> throws eng query)"
  unfolding before_throw_def by (auto simp: takeWhile_eq_all_conv)

lemma before_throw_length:
  "length (before_throw eng es) = length es \<longleftrightarrow> before_throw eng es = es"
  unfolding before_throw_def
  by (metis length_append takeWhile_dropWhile_id add_cancel_right_right length_0_conv
      append_Nil2)

text \<open>What \<open>batch.map\<close> gives, by whether a query of the batch throws.\<close>

lemma batch_map_returns:
  assumes "before_throw eng batch = batch"
  shows "batch_map eng batch = Inr (settlements eng batch)"
  using assms
proof (induction batch)
  case Nil
  show ?case by (simp add: settlements_def List.map_filter_def)
next
  case (Cons x batch)
  obtain i query where x: "x = (i, query)" by (cases x)
  from Cons.prems have t: "\<not> throws eng query" and rest: "before_throw eng batch = batch"
    unfolding before_throw_all x by simp_all
  from t obtain s where s: "executeQuery eng query = Returns s"
    by (cases "executeQuery eng query") (simp_all add: throws_def)
  show ?case
    unfolding x by (simp add: s Cons.IH[OF rest] settlements_def List.map_filter_def)
qed

lemma batch_map_throws:
  assumes "before_throw eng batch \<noteq> batch"
  shows "\<exists>e. first_throw eng batch = Some (Thrown e) \<and>
             batch_map eng batch = Inl (e, map snd (started eng batch))"
  using assms
proof (induction batch)
  case Nil
  then show ?case by (simp add: before_throw_def)
next
  case (Cons x batch)
  obtain i query where x: "x = (i, query)" by (cases x)
  show ?case
  proof (cases "executeQuery eng query")
    case (Throws e)
    then show ?thesis
      unfolding x by (simp add: first_throw_def started_def before_throw_def throws_def)
  next
    case (Returns s)
    then have t: "\<not> throws eng query" by (simp add: throws_def)
    with Cons.prems have "before_throw eng batch \<noteq> batch"
      unfolding x before_throw_def by simp
    from Cons.IH[OF this] obtain e where
      f: "first_throw eng batch = Some (Thrown e)"
      and b: "batch_map eng batch = Inl (e, map snd (started eng batch))" by (elim exE conjE)
    from t f b Returns show ?thesis
      unfolding x by (simp add: first_throw_def started_def before_throw_def)
  qed
qed

text \<open>
  A batch in which no query throws, followed by further entries: what is started and
  what is thrown continues behind it, and so does what is completed when the batch is
  full or the last one.
\<close>

lemma first_throw_append:
  assumes "before_throw eng xs = xs"
  shows "first_throw eng (xs @ ys) = first_throw eng ys"
proof -
  from assms have "\<forall>x\<in>set xs. (\<lambda>(i, query). \<not> throws eng query) x"
    unfolding before_throw_all by auto
  then show ?thesis unfolding first_throw_def by (simp add: dropWhile_append2)
qed

lemma before_throw_append:
  assumes "before_throw eng xs = xs"
  shows "before_throw eng (xs @ ys) = xs @ before_throw eng ys"
proof -
  from assms have "\<forall>x\<in>set xs. (\<lambda>(i, query). \<not> throws eng query) x"
    unfolding before_throw_all by auto
  then show ?thesis unfolding before_throw_def by (simp add: takeWhile_append2)
qed

lemma started_append:
  assumes "before_throw eng xs = xs"
  shows "started eng (xs @ ys) = xs @ started eng ys"
  unfolding started_def before_throw_append[OF assms] by simp

lemma completed_append:
  assumes "before_throw eng xs = xs"
    and "length xs = nat (maxConcurrentQueries eng) \<or> ys = []"
  shows "completed eng (xs @ ys) = xs @ completed eng ys"
proof (cases "ys = []")
  case True
  then show ?thesis by (simp add: completed_def assms(1))
next
  case False
  with assms(2) have n: "length xs = nat (maxConcurrentQueries eng)" by simp
  let ?n = "nat (maxConcurrentQueries eng)"
  let ?k = "length (before_throw eng ys)"
  show ?thesis
  proof (cases "?k = length ys")
    case True
    then show ?thesis by (simp add: completed_def before_throw_append[OF assms(1)])
  next
    case neq: False
    have "(length xs + ?k) div ?n * ?n = length xs + ?k div ?n * ?n"
    proof (cases "?n = 0")
      case True
      with n show ?thesis by simp
    next
      case False
      then have "(?n + ?k) div ?n = ?k div ?n + 1" by (rule div_add_self1)
      then show ?thesis unfolding n by simp
    qed
    with neq show ?thesis
      by (simp add: completed_def before_throw_append[OF assms(1)])
  qed
qed

text \<open>A batch in which a query throws: nothing behind the batch matters.\<close>

lemma before_throw_prefix:
  assumes "before_throw eng xs \<noteq> xs"
  shows "before_throw eng (xs @ ys) = before_throw eng xs"
proof -
  from assms obtain x where "x \<in> set xs" "\<not> (\<lambda>(i, query). \<not> throws eng query) x"
    unfolding before_throw_all by auto
  then show ?thesis
    unfolding before_throw_def
    by (rule takeWhile_append1[where P = "\<lambda>(i, query). \<not> throws eng query"])
qed

lemma first_throw_prefix:
  assumes "before_throw eng xs \<noteq> xs"
  shows "first_throw eng (xs @ ys) = first_throw eng xs"
proof -
  from assms obtain x where x: "x \<in> set xs" "\<not> (\<lambda>(i, query). \<not> throws eng query) x"
    unfolding before_throw_all by auto
  then have d: "dropWhile (\<lambda>(i, query). \<not> throws eng query) xs \<noteq> []"
    by (auto simp: dropWhile_eq_Nil_conv)
  show ?thesis
    unfolding first_throw_def
      dropWhile_append1[where P = "\<lambda>(i, query). \<not> throws eng query", OF x] using d
    by (cases "dropWhile (\<lambda>(i, query). \<not> throws eng query) xs") simp_all
qed

lemma before_throw_shorter:
  assumes "before_throw eng xs \<noteq> xs"
  shows "length (before_throw eng xs) < length xs"
  using assms before_throw_length[of eng xs]
  unfolding before_throw_def
  by (metis length_takeWhile_le le_neq_implies_less)

lemma started_prefix:
  assumes "before_throw eng xs \<noteq> xs"
  shows "started eng (xs @ ys) = started eng xs"
  unfolding started_def before_throw_prefix[OF assms]
  using before_throw_shorter[OF assms] by simp

lemma completed_prefix:
  assumes "before_throw eng xs \<noteq> xs" and "length xs \<le> nat (maxConcurrentQueries eng)"
  shows "completed eng (xs @ ys) = []"
proof -
  from before_throw_shorter[OF assms(1)] assms(2)
  have "length (before_throw eng xs) < nat (maxConcurrentQueries eng)"
    and "length (before_throw eng xs) \<noteq> length (xs @ ys)" by simp_all
  then show ?thesis
    unfolding completed_def before_throw_prefix[OF assms(1)] by simp
qed

text \<open>
  With a ceiling of at least one the loop ends: it has started the entries up to the
  first query that throws, yielded the fulfilled results of the completed batches and
  reported their rejections.
\<close>

lemma processQueries_loop_returns:
  assumes "1 \<le> maxConcurrentQueries eng"
  shows "processQueries_loop eng es st out =
           Some (out @ fulfilled (settlements eng (completed eng es)), first_throw eng es,
                 st\<lparr>executed := executed st @ map snd (started eng es),
                    console := console st @ rejected (settlements eng (completed eng es))\<rparr>)"
proof (induction "length es" arbitrary: es st out rule: less_induct)
  case less
  show ?case
  proof (cases "es = []")
    case True
    then show ?thesis
      by (subst processQueries_loop.simps)
        (simp add: fulfilled_def rejected_def settlements_def List.map_filter_def
          completed_def started_def first_throw_def before_throw_def)
  next
    case False
    let ?n = "nat (maxConcurrentQueries eng)"
    let ?batch = "take ?n es"
    let ?rest = "drop ?n es"
    have n: "0 < ?n" using assms by simp
    have shorter: "length ?rest < length es" using False n by simp
    have es: "es = ?batch @ ?rest" by simp
    have full: "length ?batch = ?n \<or> ?rest = []" by auto
    have le: "length ?batch \<le> ?n" by simp
    show ?thesis
    proof (cases "before_throw eng ?batch = ?batch")
      case True
      have "processQueries_loop eng es st out =
          processQueries_loop eng ?rest
            (st\<lparr>executed := executed st @ map snd ?batch,
                console := console st @ rejected (settlements eng ?batch)\<rparr>)
            (out @ fulfilled (settlements eng ?batch))"
        using False
        by (subst processQueries_loop.simps) (simp add: Let_def batch_map_returns[OF True])
      also have "\<dots> = Some (out @ fulfilled (settlements eng (?batch @ completed eng ?rest)),
                 first_throw eng ?rest,
                 st\<lparr>executed := executed st @ map snd (?batch @ started eng ?rest),
                    console := console st @
                      rejected (settlements eng (?batch @ completed eng ?rest))\<rparr>)"
        by (simp add: less[OF shorter] settlements_append fulfilled_append rejected_append)
      also have "?batch @ completed eng ?rest = completed eng es"
        using completed_append[OF True full] by simp
      also have "?batch @ started eng ?rest = started eng es"
        using started_append[OF True, of ?rest] by simp
      also have "first_throw eng ?rest = first_throw eng es"
        using first_throw_append[OF True, of ?rest] by simp
      finally show ?thesis .
    next
      case throw: False
      from batch_map_throws[OF throw] obtain e where
        f: "first_throw eng ?batch = Some (Thrown e)"
        and b: "batch_map eng ?batch = Inl (e, map snd (started eng ?batch))"
        by (elim exE conjE)
      have "processQueries_loop eng es st out =
          Some (out, Some (Thrown e), st\<lparr>executed := executed st @ map snd (started eng ?batch)\<rparr>)"
        using False by (subst processQueries_loop.simps) (simp add: Let_def b)
      moreover have "completed eng es = []"
        using completed_prefix[OF throw le, of ?rest] by simp
      moreover have "started eng es = started eng ?batch"
        using started_prefix[OF throw, of ?rest] by simp
      moreover have "first_throw eng es = Some (Thrown e)"
        using first_throw_prefix[OF throw, of ?rest] f by simp
      ultimately show ?thesis
        by (simp add: settlements_def fulfilled_def rejected_def List.map_filter_def)
    qed
  qed
qed

text \<open>When no query throws, every entry is started and every batch completed.\<close>

lemma no_throw:
  assumes "\<forall>(i, query)\<in>set es. \<not> throws eng query"
  shows "started eng es = es" and "completed eng es = es" and "first_throw eng es = None"
proof -
  from assms have b: "before_throw eng es = es" unfolding before_throw_all .
  show "started eng es = es" unfolding started_def b by simp
  show "completed eng es = es" unfolding completed_def b by simp
  from assms have d: "dropWhile (\<lambda>(i, query). \<not> throws eng query) es = []"
    by (auto simp: dropWhile_eq_Nil_conv)
  show "first_throw eng es = None" unfolding first_throw_def d by simp
qed

lemma first_throw_None: "first_throw eng es = None \<longleftrightarrow> (\<forall>(i, query)\<in>set es. \<not> throws eng query)"
proof
  assume "\<forall>(i, query)\<in>set es. \<not> throws eng query"
  then show "first_throw eng es = None" by (rule no_throw)
next
  assume n: "first_throw eng es = None"
  show "\<forall>(i, query)\<in>set es. \<not> throws eng query"
  proof (rule ccontr)
    assume "\<not> (\<forall>(i, query)\<in>set es. \<not> throws eng query)"
    then have "before_throw eng es \<noteq> es" unfolding before_throw_all .
    from batch_map_throws[OF this] n show False by simp
  qed
qed

lemma completed_prefix_of: "\<exists>n. completed eng es = take n es"
  unfolding completed_def by (metis take_all order_refl)

lemma started_prefix_of: "\<exists>n. started eng es = take n es"
  unfolding started_def by blast




lemma fulfilled_keys:
  "map fst (fulfilled (settlements eng es)) =
     map fst (filter (\<lambda>(i, query). fulfils eng query) es)"
proof (induction es)
  case Nil
  show ?case by (simp add: settlements_Nil fulfilled_Nil)
next
  case (Cons x es)
  obtain i query where x: "x = (i, query)" by (cases x)
  show ?case
  proof (cases "executeQuery eng query")
    case (Throws e)
    then have "\<not> fulfils eng query" by (simp add: fulfils_def)
    with Throws Cons.IH show ?thesis unfolding x by (simp add: settlements_Cons)
  next
    case (Returns s)
    show ?thesis
    proof (cases s)
      case (Inl reason)
      with Returns have "\<not> fulfils eng query" by (simp add: fulfils_def)
      with Returns Inl Cons.IH show ?thesis
        unfolding x by (simp add: settlements_Cons fulfilled_Cons)
    next
      case (Inr v)
      with Returns have "fulfils eng query" by (simp add: fulfils_def)
      with Returns Inr Cons.IH show ?thesis
        unfolding x by (simp add: settlements_Cons fulfilled_Cons)
    qed
  qed
qed

text \<open>The facts that evaluate a run of the batcher on a concrete QueryMap.\<close>

lemmas batcher_run =
  processQueries_def processQueries_loop_returns completed_def started_def first_throw_def
  before_throw_def throws_def settlements_Nil settlements_Cons fulfilled_Nil fulfilled_Cons
  rejected_Nil rejected_Cons

subsection \<open>The queries relevant to a panel\<close>







subsection \<open>The resolution loop\<close>


















text \<open>A pending list none of whose metrics is eligible is swept without effect, forever.\<close>

lemma sweep_stuck:
  assumes "\<forall>m\<in>set pending. \<not> eligible (calculatedValues st) m" and "k \<le> length pending"
  shows "sweep ev k pending st out = Inr (pending, st, out)"
  using assms(2)
proof (induction k)
  case 0
  show ?case by simp
next
  case (Suc i)
  then have "i < length pending" by simp
  moreover from this assms(1) have "\<not> eligible (calculatedValues st) (pending ! i)" by simp
  ultimately show ?case using Suc by (simp add: Let_def)
qed

lemma processCalculations_loop_stuck:
  assumes stuck: "\<forall>m\<in>set pending. \<not> eligible (calculatedValues st) m" and ne: "pending \<noteq> []"
  shows "processCalculations_loop ev pending st out = None"
proof (rule ccontr)
  assume "processCalculations_loop ev pending st out \<noteq> None"
  then obtain r where run: "processCalculations_loop ev pending st out = Some r" by auto
  have "\<not> (pending \<noteq> [] \<and> (\<forall>m\<in>set pending. \<not> eligible (calculatedValues st) m))"
  proof (rule processCalculations_loop.raw_induct
      [where P = "\<lambda>ev pending st out r.
         \<not> (pending \<noteq> [] \<and> (\<forall>m\<in>set pending. \<not> eligible (calculatedValues st) m))", OF _ run])
    fix f :: "'a evaluator \<Rightarrow> MetricsToCompute list \<Rightarrow> 'a exec_state \<Rightarrow> 'a MetricResult list
        \<Rightarrow> ('a MetricResult list, 'a) outcome option"
    fix ev pending st out r
    assume ih: "\<And>ev pending st out r. f ev pending st out = Some r \<Longrightarrow>
        \<not> (pending \<noteq> [] \<and> (\<forall>m\<in>set pending. \<not> eligible (calculatedValues st) m))"
    assume step: "(if 0 < length pending
        then case sweep ev (length pending) pending st out of
             Inl (e, st') \<Rightarrow> Some (Threw e st')
             | Inr (pendingMetrics', st', out') \<Rightarrow> f ev pendingMetrics' st' out'
        else Some (Returned out st)) = Some r"
    show "\<not> (pending \<noteq> [] \<and> (\<forall>m\<in>set pending. \<not> eligible (calculatedValues st) m))"
    proof
      assume a: "pending \<noteq> [] \<and> (\<forall>m\<in>set pending. \<not> eligible (calculatedValues st) m)"
      then have "sweep ev (length pending) pending st out = Inr (pending, st, out)"
        by (simp add: sweep_stuck)
      with step a have "f ev pending st out = Some r" by simp
      from ih[OF this] a show False by simp
    qed
  qed
  with assms show False by simp
qed



lemma sum_evaluator_a_plus_b:
  "b ''a'' = Some 1 \<Longrightarrow> b ''b'' = Some 2 \<Longrightarrow> sum_evaluator ''a + b'' b = Inr 3"
  by (simp add: sum_evaluator_def trim_def dom_def)







subsection \<open>The panel cache\<close>

lemma proto_truthy: "truthy_value (cache_get panelCache ''__proto__'')"
  by (simp add: cache_get_def truthy_value_def inherited_def object_prototype_members_def
      split: option.splits)

lemma cache_get_put_same:
  assumes "key \<noteq> ''__proto__''"
  shows "cache_get (cache_put key r panelCache) key = Some (PanelResult r)"
  using assms by (simp add: cache_get_def cache_put_def)

lemma cache_get_put_other:
  assumes "key \<noteq> ''__proto__''" and "key' \<noteq> key"
  shows "cache_get (cache_put key r panelCache) key' = cache_get panelCache key'"
  using assms by (simp add: cache_get_def cache_put_def split: option.splits)

lemma falsy_not_proto:
  assumes "\<not> truthy_value (cache_get panelCache key)"
  shows "key \<noteq> ''__proto__''"
  using assms proto_truthy[of panelCache] by auto

lemma empty_cache_get: "cache_get empty_cache key = inherited key"
  by (simp add: cache_get_def empty_cache_def)

lemma empty_cache_falsy:
  "truthy_value (cache_get (empty_cache :: 'v PanelCache) key) \<longleftrightarrow>
     key \<in> set object_prototype_members"
  by (simp add: empty_cache_get inherited_def truthy_value_def)

text \<open>
  Once a panel result has been written to \<open>__proto__\<close>, reads find it and its
  fields; the cache still has no own entry.
\<close>

lemma replaced_prototype_is_read:
  "entries (cache_put ''__proto__'' r empty_cache) = Map.empty"
  "cache_get (cache_put ''__proto__'' r empty_cache) ''__proto__'' = Some (PanelResult r)"
  "cache_get (cache_put ''__proto__'' r empty_cache) ''panel'' = Some (StringValue (panel r))"
  "cache_get (cache_put ''__proto__'' r empty_cache) ''results'' = Some (ArrayValue (results r))"
  "cache_get (cache_put ''__proto__'' r empty_cache) ''toString'' = Some (Inherited ''toString'')"
  by (simp_all add: cache_get_def cache_put_def empty_cache_def inherited_def
      object_prototype_members_def)

text \<open>The facts that evaluate a read or a write of a concrete cache.\<close>

lemmas cache_run =
  cache_get_def cache_put_def empty_cache_def inherited_def truthy_value_def
  object_prototype_members_def

subsection \<open>The panel loop\<close>


lemma panel_step_cached:
  assumes "useStream" and "cache_get panelCache (title p) = Some r" and "truthy_value (Some r)"
  shows "processPanelResults_loop eng ev queryMap useStream (p # ps) panelCache st out =
           processPanelResults_loop eng ev queryMap useStream ps panelCache st (out @ [r])"
  using assms by simp

lemma panel_step_fresh:
  assumes "\<not> (useStream \<and> truthy_value (cache_get panelCache (title p)))"
  shows "processPanelResults_loop eng ev queryMap useStream (p # ps) panelCache st out =
     (case processQueries eng (relevantQueries p queryMap) st of
        None \<Rightarrow> None
      | Some (yielded, thrown, st1) \<Rightarrow>
          (case processCalculations ev (metrics p) (yielded, thrown) st1 of
             None \<Rightarrow> None
           | Some (Threw e st2) \<Rightarrow> Some (out, Some e, panelCache, st2)
           | Some (Returned rs st2) \<Rightarrow>
               processPanelResults_loop eng ev queryMap useStream ps
                 (cache_put (title p) \<lparr>panel = title p, results = rs\<rparr> panelCache) st2
                 (out @ [PanelResult \<lparr>panel = title p, results = rs\<rparr>])))"
  using assms by (simp only: processPanelResults_loop.simps if_False Let_def)

lemma truthy_cases:
  assumes "truthy_value x"
  obtains r where "x = Some r" and "truthy_value (Some r)"
  using assms by (cases x) (simp_all add: truthy_value_def)

text \<open>
  What a panel that is not served from the cache does, by the outcome of its batcher
  and of its resolution loop.
\<close>

lemma panel_step_outcome:
  assumes nc: "\<not> (useStream \<and> truthy_value (cache_get panelCache (title p)))"
    and run: "processPanelResults_loop eng ev queryMap useStream (p # ps) panelCache st out =
                Some result"
  obtains qs err st1 r where
    "processQueries eng (relevantQueries p queryMap) st = Some (qs, err, st1)"
    and "processCalculations ev (metrics p) (qs, err) st1 = Some r"
    and "case r of
           Threw e st2 \<Rightarrow> result = (out, Some e, panelCache, st2)
         | Returned rs st2 \<Rightarrow>
             processPanelResults_loop eng ev queryMap useStream ps
               (cache_put (title p) \<lparr>panel = title p, results = rs\<rparr> panelCache) st2
               (out @ [PanelResult \<lparr>panel = title p, results = rs\<rparr>]) = Some result"
proof -
  note prems = run[unfolded panel_step_fresh[where useStream = useStream
        and panelCache = panelCache and p = p, OF nc]]
  obtain qs err st1 where q: "processQueries eng (relevantQueries p queryMap) st = Some (qs, err, st1)"
  proof (cases "processQueries eng (relevantQueries p queryMap) st")
    case None
    with prems show ?thesis by simp
  next
    case (Some a)
    then show ?thesis using that by (cases a) simp
  qed
  obtain r where c: "processCalculations ev (metrics p) (qs, err) st1 = Some r"
  proof (cases "processCalculations ev (metrics p) (qs, err) st1")
    case None
    with prems q show ?thesis by simp
  next
    case (Some a)
    then show ?thesis using that by simp
  qed
  from prems q c have "case r of
           Threw e st2 \<Rightarrow> result = (out, Some e, panelCache, st2)
         | Returned rs st2 \<Rightarrow>
             processPanelResults_loop eng ev queryMap useStream ps
               (cache_put (title p) \<lparr>panel = title p, results = rs\<rparr> panelCache) st2
               (out @ [PanelResult \<lparr>panel = title p, results = rs\<rparr>]) = Some result"
    by (cases r) auto
  with q c show ?thesis by (rule that)
qed










lemma panel_loop_append:
  "processPanelResults_loop eng ev queryMap useStream (ps @ qs) panelCache st out =
     (case processPanelResults_loop eng ev queryMap useStream ps panelCache st out of
        None \<Rightarrow> None
      | Some (out', None, panelCache', st') \<Rightarrow>
          processPanelResults_loop eng ev queryMap useStream qs panelCache' st' out'
      | Some (out', Some e, panelCache', st') \<Rightarrow> Some (out', Some e, panelCache', st'))"
proof (induction ps arbitrary: panelCache st out)
  case Nil
  show ?case by simp
next
  case (Cons p ps)
  show ?case
  proof (cases "useStream \<and> truthy_value (cache_get panelCache (title p))")
    case True
    then have u: "useStream" and "truthy_value (cache_get panelCache (title p))" by simp_all
    from this(2) obtain r where r: "cache_get panelCache (title p) = Some r"
      and t: "truthy_value (Some r)" by (rule truthy_cases)
    show ?thesis
      unfolding append_Cons panel_step_cached[where panelCache = panelCache and p = p, OF u r t]
      by (rule Cons.IH)
  next
    case False
    note step = panel_step_fresh[where useStream = useStream
        and panelCache = panelCache and p = p, OF False]
    show ?thesis
    proof (cases "processQueries eng (relevantQueries p queryMap) st")
      case None
      show ?thesis unfolding append_Cons step None by simp
    next
      case (Some a)
      obtain queryStream err1 st1 where a: "a = (queryStream, err1, st1)" by (cases a)
      show ?thesis
      proof (cases "processCalculations ev (metrics p) (queryStream, err1) st1")
        case None
        show ?thesis unfolding append_Cons step Some a by (simp add: None)
      next
        case r: (Some r)
        show ?thesis
        proof (cases r)
          case (Returned rs st2)
          show ?thesis unfolding append_Cons step Some a by (simp add: r Returned Cons.IH)
        next
          case (Threw e st2)
          show ?thesis unfolding append_Cons step Some a by (simp add: r Threw)
        qed
      qed
    qed
  qed
qed

lemma cache_holds_snoc_cached:
  assumes "cache_holds panelCache out processed"
    and "cache_get panelCache (title p) = Some r" and "truthy_value (Some r)"
  shows "cache_holds panelCache (out @ [r]) (processed @ [p])"
  using assms unfolding cache_holds_def
  by (auto simp: nth_append less_Suc_eq)

lemma cache_holds_snoc_fresh:
  assumes h: "cache_holds panelCache out processed"
    and f: "\<not> truthy_value (cache_get panelCache (title p))"
  shows "cache_holds (cache_put (title p) r panelCache) (out @ [PanelResult r]) (processed @ [p])"
proof -
  from f have np: "title p \<noteq> ''__proto__''" by (rule falsy_not_proto)
  have old: "cache_get (cache_put (title p) r panelCache) (title (processed ! i)) = Some (out ! i) \<and>
      truthy_value (Some (out ! i))" if "i < length processed" for i
  proof -
    from h that have g: "cache_get panelCache (title (processed ! i)) = Some (out ! i)"
      and t: "truthy_value (Some (out ! i))" unfolding cache_holds_def by simp_all
    from g t f have ne: "title (processed ! i) \<noteq> title p" by auto
    show ?thesis unfolding cache_get_put_other[OF np ne] using g t by simp
  qed
  have new: "cache_get (cache_put (title p) r panelCache) (title p) = Some (PanelResult r)"
    by (rule cache_get_put_same[OF np])
  from h have len: "length out = length processed" unfolding cache_holds_def by simp
  show ?thesis
    unfolding cache_holds_def
  proof (intro conjI allI impI)
    show "length (out @ [PanelResult r]) = length (processed @ [p])" using len by simp
  next
    fix i assume "i < length (processed @ [p])"
    then consider "i < length processed" | "i = length processed" by fastforce
    then show "cache_get (cache_put (title p) r panelCache) (title ((processed @ [p]) ! i)) =
        Some ((out @ [PanelResult r]) ! i)"
    proof cases
      case 1
      with old[OF 1] len show ?thesis by (simp add: nth_append)
    next
      case 2
      with new len show ?thesis by (simp add: nth_append)
    qed
  next
    fix i assume "i < length (processed @ [p])"
    then consider "i < length processed" | "i = length processed" by fastforce
    then show "truthy_value (Some ((out @ [PanelResult r]) ! i))"
    proof cases
      case 1
      with old[OF 1] len show ?thesis by (simp add: nth_append)
    next
      case 2
      with len show ?thesis by (simp add: nth_append truthy_value_def)
    qed
  qed
qed

lemma stream_cache_holds:
  assumes "processPanelResults_loop eng ev queryMap True ps panelCache st out =
             Some (out', None, panelCache', st')"
    and "cache_holds panelCache out processed"
  shows "cache_holds panelCache' out' (processed @ ps)"
  using assms
proof (induction ps arbitrary: panelCache st out processed)
  case Nil
  then show ?case by simp
next
  case (Cons p ps)
  show ?case
  proof (cases "truthy_value (cache_get panelCache (title p))")
    case True
    then obtain r where r: "cache_get panelCache (title p) = Some r"
      and t: "truthy_value (Some r)" by (rule truthy_cases)
    from Cons.prems(1)[unfolded panel_step_cached[where panelCache = panelCache and p = p,
          OF TrueI r t]]
    have "processPanelResults_loop eng ev queryMap True ps panelCache st (out @ [r]) =
        Some (out', None, panelCache', st')" .
    from Cons.IH[OF this cache_holds_snoc_cached[OF Cons.prems(2) r t]]
    show ?thesis by simp
  next
    case False
    then have nc: "\<not> (True \<and> truthy_value (cache_get panelCache (title p)))" by simp
    from nc Cons.prems(1) obtain qs err1 st1 r where
      rest: "case r of
           Threw e st2 \<Rightarrow> (out', None, panelCache', st') = (out, Some e, panelCache, st2)
         | Returned rs st2 \<Rightarrow>
             processPanelResults_loop eng ev queryMap True ps
               (cache_put (title p) \<lparr>panel = title p, results = rs\<rparr> panelCache) st2
               (out @ [PanelResult \<lparr>panel = title p, results = rs\<rparr>]) =
             Some (out', None, panelCache', st')"
      by (rule panel_step_outcome)
    show ?thesis
    proof (cases r)
      case (Threw e st2)
      with rest show ?thesis by simp
    next
      case (Returned rs st2)
      with rest have
        "processPanelResults_loop eng ev queryMap True ps
           (cache_put (title p) \<lparr>panel = title p, results = rs\<rparr> panelCache) st2
           (out @ [PanelResult \<lparr>panel = title p, results = rs\<rparr>]) =
         Some (out', None, panelCache', st')"
        by simp
      from Cons.IH[OF this cache_holds_snoc_fresh[OF Cons.prems(2) False]]
      show ?thesis by simp
    qed
  qed
qed

text \<open>
  On panels of pairwise distinct titles, none of which the cache answers, the two modes
  run alike.
\<close>

lemma stream_equals_aggregate:
  assumes "distinct (map title ps)"
    and "\<forall>p\<in>set ps. \<not> truthy_value (cache_get panelCache (title p))"
  shows "processPanelResults_loop eng ev queryMap True ps panelCache st out =
         processPanelResults_loop eng ev queryMap False ps panelCache st out"
  using assms
proof (induction ps arbitrary: panelCache st out)
  case Nil
  show ?case by simp
next
  case (Cons p ps)
  from Cons.prems(2) have none: "\<not> truthy_value (cache_get panelCache (title p))" by simp
  then have nt: "\<not> (True \<and> truthy_value (cache_get panelCache (title p)))" by simp
  have nf: "\<not> (False \<and> truthy_value (cache_get panelCache (title p)))" by simp
  from none have np: "title p \<noteq> ''__proto__''" by (rule falsy_not_proto)
  have ih: "processPanelResults_loop eng ev queryMap True ps (cache_put (title p) r panelCache) st' out' =
      processPanelResults_loop eng ev queryMap False ps (cache_put (title p) r panelCache) st' out'"
    for r st' out'
  proof (rule Cons.IH)
    show "distinct (map title ps)" using Cons.prems(1) by simp
    show "\<forall>q\<in>set ps. \<not> truthy_value (cache_get (cache_put (title p) r panelCache) (title q))"
    proof
      fix q assume q: "q \<in> set ps"
      from Cons.prems(1) have "title p \<notin> title ` set ps" by simp
      with q have ne: "title q \<noteq> title p" by (metis imageI)
      show "\<not> truthy_value (cache_get (cache_put (title p) r panelCache) (title q))"
        unfolding cache_get_put_other[OF np ne] using Cons.prems(2) q by simp
    qed
  qed
  show ?case
    unfolding panel_step_fresh[where useStream = True and panelCache = panelCache and p = p, OF nt]
      panel_step_fresh[where useStream = False and panelCache = panelCache and p = p, OF nf]
    by (simp only: ih)
qed

subsection \<open>Queries that fail\<close>




subsection \<open>The parser\<close>









text \<open>
  Claim C1. The claim asks the resolution loop to end with an UnresolvableDependency
  error when the pending dependencies can never be satisfied. The loop has no such exit:
  on a dependency cycle, on a dependency that names nothing, and on a dependency whose
  query failed, \<open>executeDashboard\<close> never returns and never throws.
\<close>

theorem unresolvable_dependency_runs_forever:
  "executeDashboard failing_engine sum_evaluator (dashboard_of [] [metric_x, metric_y]) False = PanelResults None \<and>
   executeDashboard failing_engine sum_evaluator (dashboard_of [] [metric_x]) False = PanelResults None \<and>
   executeDashboard failing_engine sum_evaluator (dashboard_of [(''y'', ''SELECT 1'')] [metric_x]) False
     = PanelResults None"
proof -
  have n: "1 \<le> maxConcurrentQueries failing_engine" by (simp add: failing_engine_def)
  note defs = executeDashboard_def dashboard_of_def processPanelResults_def
        relevantQueries_def add_dependency_def truthy_def metric_x_def metric_y_def
        batcher_run cache_run processCalculations_def drain_def
        initial_state_def failing_engine_def eligible_def assign_def
        processCalculations_loop_stuck
  show ?thesis
    by (intro conjI) (simp_all add: defs)
qed

text \<open>
  Claim C2, as amended. For the dashboard with the queries \<open>a\<close> and \<open>b\<close>, of
  non-empty texts whose executions return 1 and 2, and one panel \<open>P\<close> with the single
  metric \<open>sum = a + b\<close>, an engine with a ceiling of at least one and an evaluator
  that gives 3 for \<open>a + b\<close> under these bindings: \<open>executeDashboard\<close> produces,
  in both modes, one result for panel \<open>P\<close> whose results list is exactly
  \<open>{id: sum, value: 3}\<close>. The values of \<open>a\<close> and \<open>b\<close> are bound in
  ResolvedValues, both before \<open>sum\<close> is; they are not part of the results list.
\<close>

theorem end_to_end_sum_panel:
  fixes eng :: "int QuickDashEngine"
  assumes n: "1 \<le> maxConcurrentQueries eng"
    and qa: "qa \<noteq> []" "executeQuery eng qa = Returns (Inr 1)"
    and qb: "qb \<noteq> []" "executeQuery eng qb = Returns (Inr 2)"
    and ev: "\<And>b. b ''a'' = Some 1 \<Longrightarrow> b ''b'' = Some 2 \<Longrightarrow> ev ''a + b'' b = Inr 3"
  shows "executeDashboard eng ev (dashboard_sum qa qb) False =
           PanelResults (Some (Inr [PanelResult \<lparr>panel = ''P'', results = [(''sum'', 3)]\<rparr>])) \<and>
         (\<exists>panelCache st.
            executeDashboard eng ev (dashboard_sum qa qb) True =
              AsyncGenerator (Some ([PanelResult \<lparr>panel = ''P'', results = [(''sum'', 3)]\<rparr>], None,
                                    panelCache, st)) \<and>
            calculatedValues st ''a'' = Some 1 \<and> calculatedValues st ''b'' = Some 2 \<and>
            calculatedValues st ''sum'' = Some 3 \<and>
            assigned st = [''a'', ''b'', ''sum''] \<and> executed st = [qa, qb])"
proof -
  have run: "\<exists>panelCache st.
      processPanelResults eng ev (panels (dashboard_sum qa qb)) (queries (dashboard_sum qa qb)) u =
        Some ([PanelResult \<lparr>panel = ''P'', results = [(''sum'', 3)]\<rparr>], None, panelCache, st) \<and>
      calculatedValues st ''a'' = Some 1 \<and> calculatedValues st ''b'' = Some 2 \<and>
      calculatedValues st ''sum'' = Some 3 \<and>
      assigned st = [''a'', ''b'', ''sum''] \<and> executed st = [qa, qb]" for u
    using n qa qb
    by (simp add: dashboard_sum_def processPanelResults_def batcher_run cache_run
      processCalculations_def processCalculations_loop.simps
      relevantQueries_def add_dependency_def truthy_def
      eligible_def assign_def initial_state_def ev Let_def)
  from run[of False] have agg: "executeDashboard eng ev (dashboard_sum qa qb) False =
           PanelResults (Some (Inr [PanelResult \<lparr>panel = ''P'', results = [(''sum'', 3)]\<rparr>]))"
    by (auto simp: executeDashboard_def drain_def)
  from run[of True] have str: "\<exists>panelCache st.
            executeDashboard eng ev (dashboard_sum qa qb) True =
              AsyncGenerator (Some ([PanelResult \<lparr>panel = ''P'', results = [(''sum'', 3)]\<rparr>], None,
                                    panelCache, st)) \<and>
            calculatedValues st ''a'' = Some 1 \<and> calculatedValues st ''b'' = Some 2 \<and>
            calculatedValues st ''sum'' = Some 3 \<and>
            assigned st = [''a'', ''b'', ''sum''] \<and> executed st = [qa, qb]"
    by (simp add: executeDashboard_def)
  from agg str show ?thesis by (rule conjI)
qed

theorem end_to_end_sum_panel_witness:
  "1 \<le> maxConcurrentQueries two_queries_engine \<and>
   ''SELECT a'' \<noteq> [] \<and> executeQuery two_queries_engine ''SELECT a'' = Returns (Inr 1) \<and>
   ''SELECT b'' \<noteq> [] \<and> executeQuery two_queries_engine ''SELECT b'' = Returns (Inr 2) \<and>
   sum_evaluator ''a + b'' [''a'' \<mapsto> 1, ''b'' \<mapsto> 2] = Inr 3 \<and>
   executeDashboard two_queries_engine sum_evaluator (dashboard_sum ''SELECT a'' ''SELECT b'') False =
     PanelResults (Some (Inr [PanelResult \<lparr>panel = ''P'', results = [(''sum'', 3)]\<rparr>]))"
proof -
  have n: "1 \<le> maxConcurrentQueries two_queries_engine" by (simp add: two_queries_engine_def)
  have a: "''SELECT a'' \<noteq> []" "executeQuery two_queries_engine ''SELECT a'' = Returns (Inr 1)"
    by (simp_all add: two_queries_engine_def)
  have b: "''SELECT b'' \<noteq> []" "executeQuery two_queries_engine ''SELECT b'' = Returns (Inr 2)"
    by (simp_all add: two_queries_engine_def)
  have e: "sum_evaluator ''a + b'' [''a'' \<mapsto> 1, ''b'' \<mapsto> 2] = Inr 3"
    by (rule sum_evaluator_a_plus_b) simp_all
  from end_to_end_sum_panel[where ev = sum_evaluator, OF n a b sum_evaluator_a_plus_b]
  have "executeDashboard two_queries_engine sum_evaluator (dashboard_sum ''SELECT a'' ''SELECT b'') False =
     PanelResults (Some (Inr [PanelResult \<lparr>panel = ''P'', results = [(''sum'', 3)]\<rparr>]))"
    by (rule conjunct1)
  with n a b e show ?thesis by (intro conjI)
qed

text \<open>
  Claim C2 as stated fails: the results list of panel \<open>P\<close> contains the entry for
  \<open>sum\<close> and no entry for \<open>a\<close> or \<open>b\<close>, since \<open>processCalculations\<close>
  yields nothing while it drains the query stream.
\<close>

theorem query_results_not_in_panel_results:
  "(case executeDashboard two_queries_engine sum_evaluator
           (dashboard_sum ''SELECT a'' ''SELECT b'') False of
      PanelResults (Some (Inr [PanelResult r])) \<Rightarrow>
        (panel r, (''a'', 1) \<in> set (results r), (''b'', 2) \<in> set (results r),
         (''sum'', 3) \<in> set (results r))
    | _ \<Rightarrow> ([], False, False, False)) = (''P'', False, False, True)"
  by (simp add: executeDashboard_def drain_def dashboard_sum_def
      processPanelResults_def batcher_run cache_run
      processCalculations_def processCalculations_loop.simps relevantQueries_def
      add_dependency_def truthy_def two_queries_engine_def
      eligible_def assign_def initial_state_def sum_evaluator_def trim_def Let_def)







text \<open>
  Claim C5, as amended. For a dashboard whose panel titles are pairwise distinct and
  none of them the name of a member of \<open>Object.prototype\<close>, and every engine and
  evaluator, the aggregate call returns what draining the sequence of the streaming
  call gives: the same list of panel results, the same error, or neither when the run
  never ends.
\<close>

theorem aggregate_equals_drained_stream:
  assumes "distinct (map title (panels dashboard))"
    and "\<forall>p\<in>set (panels dashboard). title p \<notin> set object_prototype_members"
  shows "\<exists>g. executeDashboard eng ev dashboard True = AsyncGenerator g \<and>
             executeDashboard eng ev dashboard False = PanelResults (drain g)"
proof -
  from assms(2)
  have "\<forall>p\<in>set (panels dashboard).
      \<not> truthy_value (cache_get (empty_cache :: 'a PanelCache) (title p))"
    by (simp add: empty_cache_falsy)
  from stream_equals_aggregate[OF assms(1) this]
  have "processPanelResults eng ev (panels dashboard) (queries dashboard) True =
        processPanelResults eng ev (panels dashboard) (queries dashboard) False"
    by (simp only: processPanelResults_def)
  then show ?thesis by (simp add: executeDashboard_def)
qed

theorem aggregate_equals_drained_stream_witness:
  "distinct (map title (panels dashboard_two_panels)) \<and>
   list_all (\<lambda>p. title p \<notin> set object_prototype_members) (panels dashboard_two_panels) \<and>
   (\<exists>g. executeDashboard two_queries_engine sum_evaluator dashboard_two_panels True =
            AsyncGenerator g \<and>
        drain g = Some (Inr [PanelResult \<lparr>panel = ''First'', results = [(''single'', 1)]\<rparr>,
                             PanelResult \<lparr>panel = ''Second'', results = [(''double'', 2)]\<rparr>]) \<and>
        executeDashboard two_queries_engine sum_evaluator dashboard_two_panels False =
          PanelResults (drain g))"
proof -
  have d: "distinct (map title (panels dashboard_two_panels))"
    by (simp add: dashboard_two_panels_def panel_first_def panel_second_def)
  have t: "\<forall>p\<in>set (panels dashboard_two_panels). title p \<notin> set object_prototype_members"
    by (simp add: dashboard_two_panels_def panel_first_def panel_second_def
        object_prototype_members_def)
  from aggregate_equals_drained_stream[OF d t, of two_queries_engine sum_evaluator]
  obtain g where s: "executeDashboard two_queries_engine sum_evaluator dashboard_two_panels True =
            AsyncGenerator g"
    and a: "executeDashboard two_queries_engine sum_evaluator dashboard_two_panels False =
          PanelResults (drain g)" by (elim exE conjE)
  have "executeDashboard two_queries_engine sum_evaluator dashboard_two_panels False =
      PanelResults (Some (Inr [PanelResult \<lparr>panel = ''First'', results = [(''single'', 1)]\<rparr>,
                             PanelResult \<lparr>panel = ''Second'', results = [(''double'', 2)]\<rparr>]))"
    by (simp add: executeDashboard_def drain_def dashboard_two_panels_def
      processPanelResults_def batcher_run cache_run
      processCalculations_def processCalculations_loop.simps relevantQueries_def
      add_dependency_def truthy_def panel_first_def panel_second_def metric_single_def
      metric_double_def queries_ab_def two_queries_engine_def
      eligible_def assign_def initial_state_def sum_evaluator_def trim_def Let_def)
  with a have "drain g = Some (Inr [PanelResult \<lparr>panel = ''First'', results = [(''single'', 1)]\<rparr>,
                             PanelResult \<lparr>panel = ''Second'', results = [(''double'', 2)]\<rparr>])"
    by simp
  with s a have "\<exists>g. executeDashboard two_queries_engine sum_evaluator dashboard_two_panels True =
            AsyncGenerator g \<and>
        drain g = Some (Inr [PanelResult \<lparr>panel = ''First'', results = [(''single'', 1)]\<rparr>,
                             PanelResult \<lparr>panel = ''Second'', results = [(''double'', 2)]\<rparr>]) \<and>
        executeDashboard two_queries_engine sum_evaluator dashboard_two_panels False =
          PanelResults (drain g)" by (intro exI conjI)
  with d t show ?thesis unfolding list_all_iff by (intro conjI)
qed

text \<open>
  Claim C5 as stated fails in two ways. On a dashboard that lists a panel twice, the
  second occurrence is answered from the cache in streaming mode; in aggregate mode it
  is computed again, now with every identifier bound, so that the sweep from the end of
  the list yields \<open>total\<close> before \<open>sum\<close>. And on a dashboard with a single panel
  titled \<open>constructor\<close>, the read of the empty cache finds the inherited member:
  the streaming call yields that member and executes no query, while the aggregate call
  computes the panel.
\<close>

theorem repeated_title_separates_the_modes:
  "executeDashboard two_queries_engine sum_evaluator dashboard_repeated False =
     PanelResults
       (Some (Inr [PanelResult \<lparr>panel = ''Totals'', results = [(''sum'', 3), (''total'', 4)]\<rparr>,
                   PanelResult \<lparr>panel = ''Totals'', results = [(''total'', 4), (''sum'', 3)]\<rparr>])) \<and>
   (case executeDashboard two_queries_engine sum_evaluator dashboard_repeated True of
      AsyncGenerator g \<Rightarrow> drain g
    | PanelResults r \<Rightarrow> None) =
     Some (Inr [PanelResult \<lparr>panel = ''Totals'', results = [(''sum'', 3), (''total'', 4)]\<rparr>,
                PanelResult \<lparr>panel = ''Totals'', results = [(''sum'', 3), (''total'', 4)]\<rparr>]) \<and>
   executeDashboard two_queries_engine sum_evaluator dashboard_inherited False =
     PanelResults
       (Some (Inr [PanelResult \<lparr>panel = ''constructor'', results = [(''single'', 1)]\<rparr>])) \<and>
   executeDashboard two_queries_engine sum_evaluator dashboard_inherited True =
     AsyncGenerator (Some ([Inherited ''constructor''], None, empty_cache, initial_state))"
  by (simp add: executeDashboard_def drain_def dashboard_repeated_def dashboard_inherited_def
      processPanelResults_def batcher_run cache_run
      processCalculations_def processCalculations_loop.simps relevantQueries_def
      add_dependency_def truthy_def panel_totals_def metric_sum_def metric_total_def
      metric_single_def queries_ab_def two_queries_engine_def
      eligible_def assign_def initial_state_def sum_evaluator_def trim_def Let_def)







text \<open>
  Claim C8. In a streaming execution that has produced the panels \<open>ps\<close>, a further
  panel whose title is among theirs is answered from the cache: what is yielded for it
  is the result yielded for every earlier panel of that title, the cache and the state
  (so the log of executed queries) stay as they were, and the execution goes on with
  the panels after it from there.
\<close>

theorem cached_panel_is_replayed:
  assumes run: "processPanelResults eng ev ps queryMap True = Some (out, None, panelCache, st)"
    and dup: "title q \<in> title ` set ps"
  shows "\<exists>r. cache_get panelCache (title q) = Some r \<and> truthy_value (Some r) \<and>
           (\<forall>i<length ps. title (ps ! i) = title q \<longrightarrow> out ! i = r) \<and>
           processPanelResults eng ev (ps @ [q]) queryMap True =
             Some (out @ [r], None, panelCache, st) \<and>
           processPanelResults eng ev (ps @ q # rest) queryMap True =
             processPanelResults_loop eng ev queryMap True rest panelCache st (out @ [r])"
proof -
  note run' = run[unfolded processPanelResults_def]
  have "cache_holds (empty_cache :: 'a PanelCache) [] []"
    by (simp add: cache_holds_def)
  from stream_cache_holds[OF run' this]
  have h: "cache_holds panelCache out ps" by simp
  from dup obtain j where j: "j < length ps" "title (ps ! j) = title q"
    by (auto simp: in_set_conv_nth)
  with h have r: "cache_get panelCache (title q) = Some (out ! j)"
    and t: "truthy_value (Some (out ! j))"
    unfolding cache_holds_def by metis+
  have same: "\<forall>i<length ps. title (ps ! i) = title q \<longrightarrow> out ! i = out ! j"
  proof (intro allI impI)
    fix i assume "i < length ps" "title (ps ! i) = title q"
    with h have "cache_get panelCache (title q) = Some (out ! i)"
      unfolding cache_holds_def by metis
    with r show "out ! i = out ! j" by simp
  qed
  have step: "processPanelResults_loop eng ev queryMap True (ps @ q # qs) empty_cache initial_state [] =
      processPanelResults_loop eng ev queryMap True qs panelCache st (out @ [out ! j])" for qs
    unfolding panel_loop_append[where ps = ps] run'
    using panel_step_cached[where panelCache = panelCache and p = q, OF TrueI r t]
    by simp
  have one: "processPanelResults eng ev (ps @ [q]) queryMap True =
      Some (out @ [out ! j], None, panelCache, st)"
    unfolding processPanelResults_def step by simp
  have more: "processPanelResults eng ev (ps @ q # rest) queryMap True =
      processPanelResults_loop eng ev queryMap True rest panelCache st (out @ [out ! j])"
    unfolding processPanelResults_def by (rule step)
  from r t same one more show ?thesis by (intro exI conjI)
qed

theorem cached_panel_is_replayed_witness:
  "title panel_first \<in> title ` set [panel_first] \<and>
   (\<exists>panelCache st.
      processPanelResults two_queries_engine sum_evaluator [panel_first] queries_ab True =
        Some ([result_first], None, panelCache, st) \<and>
      processPanelResults two_queries_engine sum_evaluator ([panel_first] @ [panel_first]) queries_ab True =
        Some ([result_first, result_first], None, panelCache, st) \<and>
      executed st = [''SELECT a''])"
proof -
  have dup: "title panel_first \<in> title ` set [panel_first]" by simp
  have "\<exists>panelCache st.
      processPanelResults two_queries_engine sum_evaluator [panel_first] queries_ab True =
        Some ([result_first], None, panelCache, st) \<and> executed st = [''SELECT a'']"
    by (simp add: processPanelResults_def batcher_run cache_run
      processCalculations_def processCalculations_loop.simps relevantQueries_def
      add_dependency_def truthy_def panel_first_def metric_single_def queries_ab_def
      two_queries_engine_def
      eligible_def assign_def initial_state_def sum_evaluator_def trim_def Let_def
      result_first_def)
  then obtain panelCache st where
    run: "processPanelResults two_queries_engine sum_evaluator [panel_first] queries_ab True =
        Some ([result_first], None, panelCache, st)"
    and ex: "executed st = [''SELECT a'']" by (elim exE conjE)
  from cached_panel_is_replayed[OF run dup, of "[]"]
  obtain r where
    same: "\<forall>i<length [panel_first]. title ([panel_first] ! i) = title panel_first \<longrightarrow>
             [result_first] ! i = r"
    and again: "processPanelResults two_queries_engine sum_evaluator ([panel_first] @ [panel_first])
        queries_ab True = Some ([result_first] @ [r], None, panelCache, st)"
    by (elim exE conjE)
  from same have "r = result_first" by simp
  with again have "processPanelResults two_queries_engine sum_evaluator ([panel_first] @ [panel_first])
        queries_ab True = Some ([result_first, result_first], None, panelCache, st)" by simp
  with run ex have "\<exists>panelCache st.
      processPanelResults two_queries_engine sum_evaluator [panel_first] queries_ab True =
        Some ([result_first], None, panelCache, st) \<and>
      processPanelResults two_queries_engine sum_evaluator ([panel_first] @ [panel_first]) queries_ab True =
        Some ([result_first, result_first], None, panelCache, st) \<and>
      executed st = [''SELECT a'']" by (intro exI conjI)
  with dup show ?thesis by (rule conjI)
qed

text \<open>
  Claim C9, as amended. With a ceiling of at least one, the batcher yields the fulfilled
  results in the order the entries have in the input QueryMap, within a batch and across
  batches, whatever the order in which the executions complete: the yielded list is the
  list of settlements of the completed batches, which \<open>Promise.allSettled\<close> returns
  in input order, without the rejected ones. The completed batches and the entries
  started are initial segments of the QueryMap, and all of it when no call of
  \<open>executeQuery\<close> throws.
\<close>

theorem batch_results_in_input_order:
  assumes "1 \<le> maxConcurrentQueries eng"
  shows "\<exists>out err st'. processQueries eng queryMap st = Some (out, err, st') \<and>
           out = fulfilled (settlements eng (completed eng queryMap)) \<and>
           map fst out =
             map fst (filter (\<lambda>(i, query). fulfils eng query) (completed eng queryMap)) \<and>
           executed st' = executed st @ map snd (started eng queryMap) \<and>
           (\<exists>n. completed eng queryMap = take n queryMap) \<and>
           (\<exists>n. started eng queryMap = take n queryMap) \<and>
           (err = None \<longleftrightarrow> (\<forall>(i, query)\<in>set queryMap. \<not> throws eng query)) \<and>
           ((\<forall>(i, query)\<in>set queryMap. \<not> throws eng query) \<longrightarrow>
              completed eng queryMap = queryMap \<and> started eng queryMap = queryMap)"
proof -
  have run: "processQueries eng queryMap st =
      Some (fulfilled (settlements eng (completed eng queryMap)), first_throw eng queryMap,
            st\<lparr>executed := executed st @ map snd (started eng queryMap),
               console := console st @ rejected (settlements eng (completed eng queryMap))\<rparr>)"
    using assms by (simp add: processQueries_def processQueries_loop_returns)
  have all: "(\<forall>(i, query)\<in>set queryMap. \<not> throws eng query) \<longrightarrow>
      completed eng queryMap = queryMap \<and> started eng queryMap = queryMap"
    using no_throw[of queryMap eng] by blast
  let ?out = "fulfilled (settlements eng (completed eng queryMap))"
  let ?st = "st\<lparr>executed := executed st @ map snd (started eng queryMap),
               console := console st @ rejected (settlements eng (completed eng queryMap))\<rparr>"
  have ex: "executed ?st = executed st @ map snd (started eng queryMap)" by simp
  have body: "processQueries eng queryMap st = Some (?out, first_throw eng queryMap, ?st) \<and>
           ?out = fulfilled (settlements eng (completed eng queryMap)) \<and>
           map fst ?out =
             map fst (filter (\<lambda>(i, query). fulfils eng query) (completed eng queryMap)) \<and>
           executed ?st = executed st @ map snd (started eng queryMap) \<and>
           (\<exists>n. completed eng queryMap = take n queryMap) \<and>
           (\<exists>n. started eng queryMap = take n queryMap) \<and>
           (first_throw eng queryMap = None \<longleftrightarrow>
              (\<forall>(i, query)\<in>set queryMap. \<not> throws eng query)) \<and>
           ((\<forall>(i, query)\<in>set queryMap. \<not> throws eng query) \<longrightarrow>
              completed eng queryMap = queryMap \<and> started eng queryMap = queryMap)"
    by (intro conjI run refl fulfilled_keys ex completed_prefix_of started_prefix_of
        first_throw_None all)
  show ?thesis
    by (rule exI[of _ ?out], rule exI[of _ "first_throw eng queryMap"], rule exI[of _ ?st],
        rule body)
qed

theorem batch_results_in_input_order_witness:
  "1 \<le> maxConcurrentQueries two_queries_engine \<and>
   list_all (\<lambda>(i, query). \<not> throws two_queries_engine query) queries_ab \<and>
   (\<exists>out st'. processQueries two_queries_engine queries_ab initial_state = Some (out, None, st') \<and>
      map fst out = [''a'', ''b''] \<and> executed st' = [''SELECT a'', ''SELECT b''])"
proof -
  have n: "1 \<le> maxConcurrentQueries two_queries_engine" by (simp add: two_queries_engine_def)
  have t: "\<forall>(i, query)\<in>set queries_ab. \<not> throws two_queries_engine query"
    by (simp add: queries_ab_def throws_def two_queries_engine_def)
  from batch_results_in_input_order[OF n, of queries_ab initial_state]
  obtain out err st' where
    run: "processQueries two_queries_engine queries_ab initial_state = Some (out, err, st')"
    and keys: "map fst out =
      map fst (filter (\<lambda>(i, query). fulfils two_queries_engine query)
                 (completed two_queries_engine queries_ab))"
    and ex: "executed st' =
      executed (initial_state :: int exec_state) @ map snd (started two_queries_engine queries_ab)"
    and err: "err = None \<longleftrightarrow> (\<forall>(i, query)\<in>set queries_ab. \<not> throws two_queries_engine query)"
    and all: "(\<forall>(i, query)\<in>set queries_ab. \<not> throws two_queries_engine query) \<longrightarrow>
      completed two_queries_engine queries_ab = queries_ab \<and>
      started two_queries_engine queries_ab = queries_ab"
    by (elim exE conjE)
  from all t have c: "completed two_queries_engine queries_ab = queries_ab"
    and s: "started two_queries_engine queries_ab = queries_ab" by simp_all
  from err t have e: "err = None" by simp
  from keys have k: "map fst out = [''a'', ''b'']"
    unfolding c by (simp add: two_queries_engine_def queries_ab_def fulfils_def)
  from ex have x: "executed st' = [''SELECT a'', ''SELECT b'']"
    unfolding s by (simp add: queries_ab_def initial_state_def)
  from run[unfolded e] k x
  have "\<exists>out st'. processQueries two_queries_engine queries_ab initial_state =
      Some (out, None, st') \<and>
      map fst out = [''a'', ''b''] \<and> executed st' = [''SELECT a'', ''SELECT b'']"
    by (intro exI conjI)
  with n t show ?thesis unfolding list_all_iff by (intro conjI)
qed

text \<open>
  Claim C9 as stated fails: when the query of \<open>a\<close> takes longer than the query of
  \<open>b\<close>, started in the same batch, the completion order is \<open>b, a\<close>, and the
  batcher still yields \<open>a\<close> before \<open>b\<close>.
\<close>

theorem batch_results_not_in_completion_order:
  "map_option (map fst \<circ> fst) (processQueries two_queries_engine queries_ab initial_state) =
     Some [''a'', ''b''] \<and>
   map fst (completion_order slow_a queries_ab) = [''b'', ''a'']"
  by (simp add: batcher_run two_queries_engine_def queries_ab_def completion_order_def slow_a_def)



end
